theory Spec2Isabelle
  imports Main "HOL-Library.Word" "HOL-Library.Sublist"
begin

unbundle bit_operations_syntax

section \<open>Wear-levelling layout calculator\<close>

text \<open>
  JavaScript numbers are modelled as mathematical integers (\<open>int\<close>): sizes and addresses
  are whole byte counts, far below \<open>2 ^ 53\<close>, where the arithmetic of the source is exact.
  \<open>Math.floor (a / b)\<close> on integers is \<open>a div b\<close> (rounding towards minus infinity) and
  \<open>Math.ceil (a / b)\<close> is \<open>- ((- a) div b)\<close>, for every \<open>b \<noteq> 0\<close>.
\<close>

definition floor_div :: "int \<Rightarrow> int \<Rightarrow> int" where
  "floor_div a b = a div b"

definition ceil_div :: "int \<Rightarrow> int \<Rightarrow> int" where
  "ceil_div a b = - ((- a) div b)"

record WLLayout =
  stateSize :: int
  cfgSize :: int
  flashSize :: int
  maxPos :: int
  addrCfg :: int
  addrState1 :: int
  addrState2 :: int

definition WL_STATE_HEADER_SIZE :: int where
  "WL_STATE_HEADER_SIZE = 64"

text \<open>
  \<open>calculateWLLayout\<close>. With \<open>sectorSize = 0\<close> the source divides by zero:
  \<open>Math.ceil (36 / 0) * 0\<close> is \<open>Infinity * 0 = NaN\<close>, and \<open>NaN\<close> reaches every one of the
  seven fields. That all-\<open>NaN\<close> layout is the value \<open>None\<close>.
\<close>

definition calculateWLLayout :: "int \<Rightarrow> int \<Rightarrow> WLLayout option" where
  "calculateWLLayout partitionSize sectorSize =
     (if sectorSize = 0 then None
      else
        let cfgSize = ceil_div 36 sectorSize * sectorSize;
            numSectors = floor_div partitionSize sectorSize;
            stateRawSize = WL_STATE_HEADER_SIZE + numSectors * 4;
            stateSize = ceil_div stateRawSize sectorSize * sectorSize;
            addrCfg = partitionSize - cfgSize;
            addrState1 = partitionSize - cfgSize - stateSize * 2;
            addrState2 = partitionSize - cfgSize - stateSize;
            flashSize = (floor_div addrState1 sectorSize - 1) * sectorSize;
            maxPos = floor_div flashSize sectorSize + 1
        in Some \<lparr> stateSize = stateSize, cfgSize = cfgSize, flashSize = flashSize,
                  maxPos = maxPos, addrCfg = addrCfg, addrState1 = addrState1,
                  addrState2 = addrState2 \<rparr>)"

section \<open>Checksum engine\<close>

type_synonym byte = "8 word"
type_synonym buffer = "byte list"

text \<open>
  \<open>wlCrc32\<close>. The accumulator of the source is a JavaScript number on which only the
  32-bit operators \<open>^\<close>, \<open>&\<close> and unsigned right shift act, so its bit pattern is a \<open>32 word\<close>; the
  final \<open>crc >>> 0\<close> reads that pattern as an unsigned integer (\<open>uint\<close>).
\<close>

definition crc_step :: "32 word \<Rightarrow> 32 word" where
  "crc_step crc =
     (if crc AND 1 \<noteq> 0 then drop_bit 1 crc XOR 0xEDB88320 else drop_bit 1 crc)"

text \<open>The inner loop \<open>for (let j = 0; j < 8; j++)\<close>.\<close>

function crc_bits :: "nat \<Rightarrow> 32 word \<Rightarrow> 32 word" where
  "crc_bits j crc = (if j < 8 then crc_bits (Suc j) (crc_step crc) else crc)"
  by pat_completeness auto
termination
  by (relation "measure (\<lambda>(j, crc). 8 - j)") auto

text \<open>The outer loop \<open>for (let i = 0; i < buf.length; i++)\<close>.\<close>

function wlCrc32_loop :: "buffer \<Rightarrow> nat \<Rightarrow> 32 word \<Rightarrow> 32 word" where
  "wlCrc32_loop buf i crc =
     (if i < length buf
      then wlCrc32_loop buf (Suc i) (crc_bits 0 (crc XOR ucast (buf ! i)))
      else crc)"
  by pat_completeness auto
termination
  by (relation "measure (\<lambda>(buf, i, crc). length buf - i)") auto

definition wlCrc32 :: "buffer \<Rightarrow> int" where
  "wlCrc32 buf = uint (wlCrc32_loop buf 0 0xFFFFFFFF)"

text \<open>
  The checksum as the specification words it: seed \<open>0xFFFFFFFF\<close>; per byte, XOR into
  the low byte and then eight rounds; the final accumulator is returned unmodified.
\<close>

definition spec_crc_round :: "32 word \<Rightarrow> 32 word" where
  "spec_crc_round acc =
     (if bit acc 0 then drop_bit 1 acc XOR 0xEDB88320 else drop_bit 1 acc)"

definition spec_crc_byte :: "32 word \<Rightarrow> byte \<Rightarrow> 32 word" where
  "spec_crc_byte acc b = (spec_crc_round ^^ 8) (acc XOR ucast b)"

definition spec_crc32 :: "buffer \<Rightarrow> 32 word" where
  "spec_crc32 buf = foldl spec_crc_byte 0xFFFFFFFF buf"

text \<open>The inverse of one round, used to show that a round loses no information.\<close>

definition crc_unstep :: "32 word \<Rightarrow> 32 word" where
  "crc_unstep r =
     (if bit r 31 then push_bit 1 (r XOR 0xEDB88320) OR 1 else push_bit 1 r)"

section \<open>Node.js buffers\<close>

text \<open>
  The \<open>Error\<close> thrown by the assembler on a size mismatch, the \<open>RangeError\<close> that the
  Node.js \<open>Buffer\<close> methods throw on a value or an offset out of range, and the failure
  of the partition scan.
\<close>

datatype error = SizeMismatch | RangeError | NotFound

definition bind_result :: "error + 'a \<Rightarrow> ('a \<Rightarrow> error + 'b) \<Rightarrow> error + 'b" where
  "bind_result r f = (case r of Inl e \<Rightarrow> Inl e | Inr x \<Rightarrow> f x)"

text \<open>
  \<open>Buffer.alloc (size, fill)\<close>: a negative size is refused. (The platform's largest
  buffer, of at least \<open>2 ^ 32 - 1\<close> bytes, and the memory at hand are not modelled.)
\<close>

definition Buffer_alloc :: "int \<Rightarrow> byte \<Rightarrow> error + buffer" where
  "Buffer_alloc n fill =
     (if n < 0 then Inl RangeError else Inr (replicate (nat n) fill))"

text \<open>
  \<open>source.copy (target, targetStart)\<close>: a negative start is refused; a start at or
  beyond the end of the target copies nothing; otherwise as many bytes as fit are
  copied. The model returns the target after the copy.
\<close>

definition Buffer_copy :: "buffer \<Rightarrow> buffer \<Rightarrow> int \<Rightarrow> error + buffer" where
  "Buffer_copy source target targetStart =
     (if targetStart < 0 then Inl RangeError
      else if length target \<le> nat targetStart then Inr target
      else
        let nb = min (length source) (length target - nat targetStart)
        in Inr (take (nat targetStart) target @ take nb source
                @ drop (nat targetStart + nb) target))"

text \<open>\<open>buf.subarray (start, end)\<close> for \<open>0 \<le> start \<le> end\<close>.\<close>

definition subarray :: "buffer \<Rightarrow> nat \<Rightarrow> nat \<Rightarrow> buffer" where
  "subarray buf start end = take (end - start) (drop start buf)"

text \<open>The four bytes of an unsigned 32-bit value, least significant first.\<close>

definition le32 :: "int \<Rightarrow> buffer" where
  "le32 v = [word_of_int v, word_of_int (v div 2 ^ 8),
             word_of_int (v div 2 ^ 16), word_of_int (v div 2 ^ 24)]"

text \<open>
  \<open>buf.writeUInt32LE (value, offset)\<close>: the value must lie in \<open>[0, 2 ^ 32)\<close> and the
  four bytes must fit, or a \<open>RangeError\<close> is thrown. The model returns the buffer
  after the write.
\<close>

definition writeUInt32LE :: "buffer \<Rightarrow> int \<Rightarrow> nat \<Rightarrow> error + buffer" where
  "writeUInt32LE buf v offset =
     (if v < 0 \<or> 2 ^ 32 \<le> v then Inl RangeError
      else if length buf < offset + 4 then Inl RangeError
      else Inr (take offset buf @ le32 v @ drop (offset + 4) buf))"

section \<open>Wear-levelling image assembler\<close>

text \<open>
  The block \<open>Build wl_config_t (36 bytes)\<close> of \<open>wrapWithWearLeveling\<close>: the finished
  \<open>configBuf\<close> together with \<open>configCrc\<close>.
\<close>

definition buildConfig :: "int \<Rightarrow> int \<Rightarrow> error + (buffer \<times> int)" where
  "buildConfig partitionSize sectorSize =
     bind_result (writeUInt32LE (replicate 36 0) 0 0) (\<lambda>b0.
     bind_result (writeUInt32LE b0 partitionSize 4) (\<lambda>b1.
     bind_result (writeUInt32LE b1 sectorSize 8) (\<lambda>b2.
     bind_result (writeUInt32LE b2 sectorSize 12) (\<lambda>b3.
     bind_result (writeUInt32LE b3 16 16) (\<lambda>b4.
     bind_result (writeUInt32LE b4 16 20) (\<lambda>b5.
     bind_result (writeUInt32LE b5 2 24) (\<lambda>b6.
     bind_result (writeUInt32LE b6 32 28) (\<lambda>b7.
       let configCrc = wlCrc32 (subarray b7 0 32)
       in bind_result (writeUInt32LE b7 configCrc 32) (\<lambda>configBuf.
            Inr (configBuf, configCrc))))))))))"

text \<open>The block \<open>Build wl_state_t header (64 bytes)\<close>.\<close>

definition buildStateHeader :: "int \<Rightarrow> int \<Rightarrow> int \<Rightarrow> error + buffer" where
  "buildStateHeader max_pos sectorSize deviceId =
     bind_result (writeUInt32LE (replicate 64 0) 0 0) (\<lambda>h0.
     bind_result (writeUInt32LE h0 max_pos 4) (\<lambda>h1.
     bind_result (writeUInt32LE h1 0 8) (\<lambda>h2.
     bind_result (writeUInt32LE h2 0 12) (\<lambda>h3.
     bind_result (writeUInt32LE h3 16 16) (\<lambda>h4.
     bind_result (writeUInt32LE h4 sectorSize 20) (\<lambda>h5.
     bind_result (writeUInt32LE h5 2 24) (\<lambda>h6.
     bind_result (writeUInt32LE h6 deviceId 28) (\<lambda>h7.
       let stateCrc = wlCrc32 (subarray h7 0 60)
       in writeUInt32LE h7 stateCrc 60))))))))"

text \<open>
  \<open>wrapWithWearLeveling\<close>. The comparison \<open>fatImage.length !== flashSize\<close> is true
  whenever \<open>flashSize\<close> is \<open>NaN\<close>, so the all-\<open>NaN\<close> layout throws the size error too.
\<close>

definition wrapWithWearLeveling :: "buffer \<Rightarrow> int \<Rightarrow> int \<Rightarrow> error + buffer" where
  "wrapWithWearLeveling fatImage partitionSize sectorSize =
     (case calculateWLLayout partitionSize sectorSize of
        None \<Rightarrow> Inl SizeMismatch
      | Some L \<Rightarrow>
          if int (length fatImage) \<noteq> flashSize L then Inl SizeMismatch
          else
            bind_result (Buffer_alloc partitionSize 0xFF) (\<lambda>image0.
            bind_result (Buffer_copy fatImage image0 sectorSize) (\<lambda>image1.
            bind_result (buildConfig partitionSize sectorSize) (\<lambda>(configBuf, configCrc).
            bind_result (Buffer_copy configBuf image1 (addrCfg L)) (\<lambda>image2.
            bind_result (buildStateHeader (maxPos L) sectorSize configCrc) (\<lambda>stateHeader.
            bind_result (Buffer_copy stateHeader image2 (addrState1 L)) (\<lambda>image3.
              Buffer_copy stateHeader image3 (addrState2 L))))))))"

text \<open>
  The two records as the specification lays them out, field by field, every field a
  little-endian 32-bit value.
\<close>

definition spec_config_fields :: "int \<Rightarrow> int \<Rightarrow> buffer" where
  "spec_config_fields partitionSize sectorSize =
     le32 0 @ le32 partitionSize @ le32 sectorSize @ le32 sectorSize
     @ le32 16 @ le32 16 @ le32 2 @ le32 32"

definition spec_config_record :: "int \<Rightarrow> int \<Rightarrow> buffer" where
  "spec_config_record partitionSize sectorSize =
     spec_config_fields partitionSize sectorSize
     @ le32 (wlCrc32 (spec_config_fields partitionSize sectorSize))"

definition spec_state_fields :: "int \<Rightarrow> int \<Rightarrow> int \<Rightarrow> buffer" where
  "spec_state_fields partitionSize sectorSize max_pos =
     le32 0 @ le32 max_pos @ le32 0 @ le32 0 @ le32 16 @ le32 sectorSize @ le32 2
     @ le32 (wlCrc32 (spec_config_fields partitionSize sectorSize))
     @ replicate 28 0"

definition spec_state_record :: "int \<Rightarrow> int \<Rightarrow> int \<Rightarrow> buffer" where
  "spec_state_record partitionSize sectorSize max_pos =
     spec_state_fields partitionSize sectorSize max_pos
     @ le32 (wlCrc32 (spec_state_fields partitionSize sectorSize max_pos))"

text \<open>A buffer with the bytes of \<open>src\<close> laid over it from index \<open>a\<close> on.\<close>

definition overlay :: "buffer \<Rightarrow> nat \<Rightarrow> buffer \<Rightarrow> buffer" where
  "overlay tgt a src = take a tgt @ src @ drop (a + length src) tgt"

text \<open>The image after the four copies of the assembler, when every copy fits.\<close>

definition assembled :: "nat \<Rightarrow> nat \<Rightarrow> buffer \<Rightarrow> nat \<Rightarrow> buffer \<Rightarrow> nat \<Rightarrow> nat \<Rightarrow> buffer \<Rightarrow> buffer" where
  "assembled P S fat AC cfg A1 A2 st =
     overlay (overlay (overlay (overlay (replicate P 0xFF) S fat) AC cfg) A1 st) A2 st"

text \<open>The bytes of an image from address \<open>a\<close> on, \<open>n\<close> of them.\<close>

definition region :: "buffer \<Rightarrow> int \<Rightarrow> nat \<Rightarrow> buffer" where
  "region img a n = take n (drop (nat a) img)"

text \<open>Whether byte index \<open>i\<close> lies in the \<open>n\<close> bytes from address \<open>a\<close> on.\<close>

definition within :: "nat \<Rightarrow> int \<Rightarrow> int \<Rightarrow> bool" where
  "within i a n = (a \<le> int i \<and> int i < a + n)"

section \<open>JavaScript numbers and strings\<close>

text \<open>
  A number that may be \<open>NaN\<close>: \<open>None\<close> is \<open>NaN\<close>, \<open>Some n\<close> the integer \<open>n\<close>. Arithmetic
  with \<open>NaN\<close> yields \<open>NaN\<close>; \<open>NaN\<close> and \<open>0\<close> are the falsy numbers.
\<close>

type_synonym number = "int option"

definition num_add :: "number \<Rightarrow> number \<Rightarrow> number" where
  "num_add a b = (case a of None \<Rightarrow> None | Some x \<Rightarrow> map_option (\<lambda>y. x + y) b)"

definition num_mul :: "number \<Rightarrow> number \<Rightarrow> number" where
  "num_mul a b = (case a of None \<Rightarrow> None | Some x \<Rightarrow> map_option (\<lambda>y. x * y) b)"

definition falsy :: "number \<Rightarrow> bool" where
  "falsy n = (n = None \<or> n = Some 0)"

text \<open>
  A string is a list of code units below 256, one \<open>char\<close> each. White space, for
  \<open>trim\<close> and for \<open>parseInt\<close> alike, is TAB, LF, VT, FF, CR, the space and the
  no-break space U+00A0: every white-space code unit below 256. \<open>toUpperCase\<close> maps
  the letters \<open>a\<close> to \<open>z\<close> and leaves every other character as it is.
\<close>

definition isWhiteSpace :: "char \<Rightarrow> bool" where
  "isWhiteSpace c =
     (c \<in> set [CHR 0x09, CHR 0x0A, CHR 0x0B, CHR 0x0C, CHR 0x0D, CHR '' '', CHR 0xA0])"

definition toUpperChar :: "char \<Rightarrow> char" where
  "toUpperChar c =
     (case map_of (zip ''abcdefghijklmnopqrstuvwxyz'' ''ABCDEFGHIJKLMNOPQRSTUVWXYZ'') c of
        Some u \<Rightarrow> u
      | None \<Rightarrow> c)"

definition toUpperCase :: "string \<Rightarrow> string" where
  "toUpperCase s = map toUpperChar s"

definition trim :: "string \<Rightarrow> string" where
  "trim s = rev (dropWhile isWhiteSpace (rev (dropWhile isWhiteSpace s)))"

text \<open>\<open>s.indexOf (pat)\<close>: the first index at which \<open>pat\<close> occurs in \<open>s\<close>, or \<open>-1\<close>.\<close>

fun indexOf_from :: "string \<Rightarrow> string \<Rightarrow> nat \<Rightarrow> int" where
  "indexOf_from [] pat i = (if pat = [] then int i else - 1)"
| "indexOf_from (c # cs) pat i =
     (if prefix pat (c # cs) then int i else indexOf_from cs pat (Suc i))"

definition indexOf :: "string \<Rightarrow> string \<Rightarrow> int" where
  "indexOf s pat = indexOf_from s pat 0"

text \<open>\<open>s.substring (start, end)\<close> for \<open>0 \<le> start \<le> end\<close>.\<close>

definition substring :: "string \<Rightarrow> nat \<Rightarrow> nat \<Rightarrow> string" where
  "substring s start end = take (end - start) (drop start s)"

text \<open>\<open>s.split (sep)\<close> for a separator of one character: always at least one piece.\<close>

fun split_str :: "string \<Rightarrow> char \<Rightarrow> string list" where
  "split_str [] sep = [[]]"
| "split_str (c # cs) sep =
     (if c = sep then [] # split_str cs sep
      else (case split_str cs sep of
              [] \<Rightarrow> [[c]]
            | piece # pieces \<Rightarrow> (c # piece) # pieces))"

subsection \<open>parseInt\<close>

text \<open>
  The value of a digit: \<open>0\<close> to \<open>9\<close>, then the letters in either case for \<open>10\<close> to
  \<open>35\<close>.
\<close>

fun position :: "char \<Rightarrow> string \<Rightarrow> nat option" where
  "position c [] = None"
| "position c (d # ds) = (if c = d then Some 0 else map_option Suc (position c ds))"

definition digitValue :: "char \<Rightarrow> nat option" where
  "digitValue c =
     (case position c ''0123456789ABCDEFGHIJKLMNOPQRSTUVWXYZ'' of
        Some n \<Rightarrow> Some n
      | None \<Rightarrow> position c ''0123456789abcdefghijklmnopqrstuvwxyz'')"

definition isRadixDigit :: "nat \<Rightarrow> char \<Rightarrow> bool" where
  "isRadixDigit R c = (case digitValue c of None \<Rightarrow> False | Some n \<Rightarrow> n < R)"

definition digitsValue :: "nat \<Rightarrow> string \<Rightarrow> int" where
  "digitsValue R Z =
     foldl (\<lambda>acc c. acc * int R + (case digitValue c of None \<Rightarrow> 0 | Some n \<Rightarrow> int n)) 0 Z"

text \<open>
  The built-in \<open>parseInt (string, radix)\<close> after ECMA-262; \<open>radix = 0\<close> stands for a
  missing radix. Leading white space is skipped, a sign is read, a prefix \<open>0x\<close> or
  \<open>0X\<close> is stripped when the radix is missing or 16, and the longest run of digits of
  the radix is the value; no digit at all gives \<open>NaN\<close>. What follows the digits is
  ignored. (The result is exact: the rounding of values beyond \<open>2 ^ 53\<close> is not
  modelled, and \<open>-0\<close> is \<open>0\<close>.)
\<close>

definition parseInt :: "string \<Rightarrow> nat \<Rightarrow> number" where
  "parseInt string radix =
     (let S = dropWhile isWhiteSpace string;
          sign = (if S \<noteq> [] \<and> hd S = CHR ''-'' then - 1 else 1 :: int);
          S1 = (if S \<noteq> [] \<and> (hd S = CHR ''+'' \<or> hd S = CHR ''-'') then tl S else S)
      in if radix \<noteq> 0 \<and> (radix < 2 \<or> 36 < radix) then None
         else
           let stripPrefix = (radix = 0 \<or> radix = 16);
               hex = (stripPrefix \<and> (take 2 S1 = ''0x'' \<or> take 2 S1 = ''0X''));
               R = (if hex then 16 else if radix = 0 then 10 else radix);
               S2 = (if hex then drop 2 S1 else S1);
               Z = takeWhile (isRadixDigit R) S2
           in if Z = [] then None else Some (sign * digitsValue R Z))"

section \<open>Numeric literal parser\<close>

definition fancyParseInt :: "string \<Rightarrow> number" where
  "fancyParseInt str =
     (let up = trim (toUpperCase str)
      in if up = [] then Some 0
         else if 0 \<le> indexOf up ''0X'' then parseInt str 16
         else if 0 \<le> indexOf up ''K''
           then num_mul (Some 1024) (parseInt (substring up 0 (nat (indexOf up ''K''))) 0)
         else if 0 \<le> indexOf up ''M''
           then num_mul (Some (1024 * 1024))
                  (parseInt (substring up 0 (nat (indexOf up ''M''))) 0)
         else parseInt str 0)"

text \<open>
  The parser as the specification words it: hexadecimal on the original string when
  the token contains \<open>0X\<close>; else the numeric prefix before the first \<open>K\<close> times 1024;
  else the prefix before the first \<open>M\<close> times \<open>1024 * 1024\<close>; else decimal.
\<close>

definition spec_fancyParseInt :: "string \<Rightarrow> number" where
  "spec_fancyParseInt str =
     (let token = trim (toUpperCase str)
      in if token = [] then Some 0
         else if sublist ''0X'' token then parseInt str 16
         else if CHR ''K'' \<in> set token
           then num_mul (Some 1024) (parseInt (takeWhile (\<lambda>c. c \<noteq> CHR ''K'') token) 10)
         else if CHR ''M'' \<in> set token
           then num_mul (Some (1024 * 1024))
                  (parseInt (takeWhile (\<lambda>c. c \<noteq> CHR ''M'') token) 10)
         else parseInt str 10)"

section \<open>Partition table parser\<close>

text \<open>
  The partition scan of \<open>doOperation\<close>: the variables \<open>lastend\<close>, \<open>fsStart\<close> and
  \<open>fsEnd\<close> are the state of the loop over the lines.
\<close>

record scan =
  lastend :: number
  fsStart :: number
  fsEnd :: number

definition stripComment :: "string \<Rightarrow> string" where
  "stripComment line =
     (if 0 \<le> indexOf line ''#'' then substring line 0 (nat (indexOf line ''#'')) else line)"

text \<open>The body of the loop, for one line.\<close>

definition scanLine :: "scan \<Rightarrow> string \<Rightarrow> scan" where
  "scanLine st line0 =
     (let line = stripComment line0;
          partitionEntry = split_str line CHR '',''
      in if 4 < length partitionEntry then
           let offset0 = fancyParseInt (partitionEntry ! 3);
               len = fancyParseInt (partitionEntry ! 4);
               offset = (if offset0 = Some 0 then lastend st else offset0);
               st1 = st \<lparr> lastend := num_add offset len \<rparr>;
               partsubtype = trim (toUpperCase (partitionEntry ! 2))
           in if partsubtype = ''FAT''
              then st1 \<lparr> fsStart := offset, fsEnd := num_add offset len \<rparr>
              else st1
         else st)"

fun scanLines :: "scan \<Rightarrow> string list \<Rightarrow> scan" where
  "scanLines st [] = st"
| "scanLines st (line # lines) = scanLines (scanLine st line) lines"

text \<open>
  The scan and the check \<open>if (!fsStart || !fsEnd)\<close> after it: the range of the FAT
  partition, or the failure reported as "FAT partition entry not found".
\<close>

definition doOperation_partitions :: "string \<Rightarrow> error + (int \<times> int)" where
  "doOperation_partitions partitionData =
     (let st = scanLines \<lparr> lastend = Some (0x8000 + 0xc00), fsStart = Some 0, fsEnd = Some 0 \<rparr>
                 (split_str partitionData (CHR 0x0A))
      in if falsy (fsStart st) \<or> falsy (fsEnd st) then Inl NotFound
         else (case fsStart st of
                 None \<Rightarrow> Inl NotFound
               | Some a \<Rightarrow> (case fsEnd st of None \<Rightarrow> Inl NotFound | Some b \<Rightarrow> Inr (a, b))))"

text \<open>
  The table as the specification reads it: the rows with at least five fields, in
  file order, comments stripped; a row is a FAT row when its trimmed, upper-cased
  subtype is \<open>FAT\<close>; offsets are resolved from a running cursor.
\<close>

definition table_rows :: "string \<Rightarrow> string list list" where
  "table_rows text =
     filter (\<lambda>row. 5 \<le> length row)
       (map (\<lambda>line. split_str (stripComment line) CHR '','') (split_str text (CHR 0x0A)))"

definition is_fat_row :: "string list \<Rightarrow> bool" where
  "is_fat_row row = (trim (toUpperCase (row ! 2)) = ''FAT'')"

definition has_fat_row :: "string \<Rightarrow> bool" where
  "has_fat_row text = list_ex is_fat_row (table_rows text)"

text \<open>Every row with its resolved offset and its size, the cursor advancing row by row.\<close>

fun resolve_rows :: "number \<Rightarrow> string list list \<Rightarrow> (bool \<times> number \<times> number) list" where
  "resolve_rows cursor [] = []"
| "resolve_rows cursor (row # rows) =
     (let field3 = fancyParseInt (row ! 3);
          size_field = fancyParseInt (row ! 4);
          offset = (if field3 = Some 0 then cursor else field3)
      in (is_fat_row row, offset, size_field)
         # resolve_rows (num_add offset size_field) rows)"

text \<open>The range \<open>(start, start + size)\<close> of the last FAT row.\<close>

definition last_fat_range :: "string \<Rightarrow> number \<times> number" where
  "last_fat_range text =
     (case last (filter fst (resolve_rows (Some (0x8000 + 0xC00)) (table_rows text))) of
        (_, offset, size_field) \<Rightarrow> (offset, num_add offset size_field))"

text \<open>
  The loop seen row by row: what one row with at least five fields does to the state,
  and the run over such rows.
\<close>

definition row_step :: "scan \<Rightarrow> string list \<Rightarrow> scan" where
  "row_step st row =
     (let field3 = fancyParseInt (row ! 3);
          size_field = fancyParseInt (row ! 4);
          offset = (if field3 = Some 0 then lastend st else field3)
      in if is_fat_row row
         then \<lparr> lastend = num_add offset size_field, fsStart = offset,
                fsEnd = num_add offset size_field \<rparr>
         else st \<lparr> lastend := num_add offset size_field \<rparr>)"

fun scan_rows :: "scan \<Rightarrow> string list list \<Rightarrow> scan" where
  "scan_rows st [] = st"
| "scan_rows st (row # rows) = scan_rows (row_step st row) rows"

section \<open>Layout: basic facts\<close>

lemma ceil_div_ge: "0 < b \<Longrightarrow> a \<le> ceil_div a b * b"
proof -
  assume b: "0 < b"
  have "(- a) div b * b \<le> - a"
    using b by (metis div_mult_mod_eq add_increasing2 pos_mod_sign order_refl)
  then show ?thesis by (simp add: ceil_div_def)
qed

lemma floor_div_le: "0 < b \<Longrightarrow> floor_div a b * b \<le> a"
  by (metis floor_div_def div_mult_mod_eq add_increasing2 pos_mod_sign order_refl)

lemma floor_div_nonneg: "0 < b \<Longrightarrow> 0 \<le> a \<Longrightarrow> 0 \<le> floor_div a b"
  by (simp add: floor_div_def pos_imp_zdiv_nonneg_iff)

lemma layout_flash_below:
  assumes s: "0 < s" and p: "0 \<le> p" and L: "calculateWLLayout p s = Some L"
  shows "flashSize L + s \<le> addrState1 L" and "addrState1 L + 164 \<le> p"
    and "64 \<le> stateSize L" and "36 \<le> cfgSize L"
proof -
  have a: "addrState1 L = p - cfgSize L - stateSize L * 2"
    and f: "flashSize L = (floor_div (addrState1 L) s - 1) * s"
    and c: "cfgSize L = ceil_div 36 s * s"
    and st: "stateSize L = ceil_div (WL_STATE_HEADER_SIZE + floor_div p s * 4) s * s"
    using L s by (auto simp: calculateWLLayout_def Let_def)
  have "floor_div (addrState1 L) s * s \<le> addrState1 L" using s by (rule floor_div_le)
  then show "flashSize L + s \<le> addrState1 L" using f by (simp add: algebra_simps)
  show c36: "36 \<le> cfgSize L" using ceil_div_ge[OF s, of 36] c by simp
  have "WL_STATE_HEADER_SIZE + floor_div p s * 4 \<le> stateSize L"
    using ceil_div_ge[OF s] st by simp
  moreover have "0 \<le> floor_div p s" using s p by (rule floor_div_nonneg)
  ultimately show s64: "64 \<le> stateSize L" by (simp add: WL_STATE_HEADER_SIZE_def)
  show "addrState1 L + 164 \<le> p" using a c36 s64 by simp
qed

lemma layout_positive_flash:
  assumes s: "8 \<le> s" and L: "calculateWLLayout p s = Some L" and f: "0 < flashSize L"
  shows "0 \<le> p"
proof (rule ccontr)
  assume "\<not> 0 \<le> p"
  then have p: "p < 0" by simp
  have s0: "0 < s" using s by simp
  define q where "q = floor_div p s"
  have a: "addrState1 L = p - cfgSize L - stateSize L * 2"
    and fl: "flashSize L = (floor_div (addrState1 L) s - 1) * s"
    and c: "cfgSize L = ceil_div 36 s * s"
    and st: "stateSize L = ceil_div (WL_STATE_HEADER_SIZE + q * 4) s * s"
    using L s0 by (auto simp: calculateWLLayout_def Let_def q_def)
  have "floor_div (addrState1 L) s * s \<le> addrState1 L" using s0 by (rule floor_div_le)
  then have a1: "s < addrState1 L" using fl f by (simp add: algebra_simps)
  have c36: "36 \<le> cfgSize L" using ceil_div_ge[OF s0, of 36] c by simp
  have st64: "64 + q * 4 \<le> stateSize L"
    using ceil_div_ge[OF s0, of "WL_STATE_HEADER_SIZE + q * 4"] st
    by (simp add: WL_STATE_HEADER_SIZE_def)
  have low: "q * s \<le> p" unfolding q_def using s0 by (rule floor_div_le)
  have up: "p < q * s + s"
  proof -
    have "p = q * s + p mod s" by (simp add: q_def floor_div_def)
    moreover have "p mod s < s" using s0 by simp
    ultimately show ?thesis by linarith
  qed
  have "q * s < 0" using low p by simp
  then have q0: "q \<le> 0" using s0 by (simp add: mult_less_0_iff)
  have "q * s \<le> q * 8" using s q0 by (rule mult_left_mono_neg)
  then show False using up a a1 c36 st64 by linarith
qed

text \<open>
  C3. For every partition size and sector size for which the layout is a number
  (\<open>sectorSize \<noteq> 0\<close>), the three regions are anchored to the tail of the partition:
  \<open>addrCfg + cfgSize = partitionSize\<close>, \<open>addrState2 + stateSize = addrCfg\<close>,
  \<open>addrState1 + stateSize = addrState2\<close>, and
  \<open>flashSize = (floor (addrState1 / sectorSize) - 1) * sectorSize\<close>. Moreover
  \<open>flashSize\<close> is strictly less than \<open>partitionSize\<close>: for every positive sector size
  and non-negative partition size, and, for a sector size of at least 8 bytes (the
  default is 4096), for every partition size whatever that is large enough for
  \<open>flashSize\<close> to be positive.
\<close>

theorem calculateWLLayout_invariant:
  assumes L: "calculateWLLayout partitionSize sectorSize = Some L"
  shows "addrCfg L + cfgSize L = partitionSize
       \<and> addrState2 L + stateSize L = addrCfg L
       \<and> addrState1 L + stateSize L = addrState2 L
       \<and> flashSize L = (floor_div (addrState1 L) sectorSize - 1) * sectorSize
       \<and> (0 < sectorSize \<and> 0 \<le> partitionSize \<longrightarrow> flashSize L < partitionSize)
       \<and> (8 \<le> sectorSize \<and> 0 < flashSize L \<longrightarrow> flashSize L < partitionSize)"
proof -
  have eqs: "addrCfg L + cfgSize L = partitionSize"
       "addrState2 L + stateSize L = addrCfg L"
       "addrState1 L + stateSize L = addrState2 L"
       "flashSize L = (floor_div (addrState1 L) sectorSize - 1) * sectorSize"
    using L by (auto simp: calculateWLLayout_def Let_def split: if_splits)
  have sizes: "flashSize L < partitionSize" if "0 < sectorSize" "0 \<le> partitionSize"
    using layout_flash_below(1,2)[OF that L] that by simp
  have "flashSize L < partitionSize" if "8 \<le> sectorSize" "0 < flashSize L"
    using sizes layout_positive_flash[OF that(1) L that(2)] that(1) by simp
  then show ?thesis using eqs sizes by simp
qed

theorem calculateWLLayout_invariant_witness:
  "calculateWLLayout 1507328 4096
     = Some \<lparr> stateSize = 4096, cfgSize = 4096, flashSize = 1490944, maxPos = 365,
              addrCfg = 1503232, addrState1 = 1495040, addrState2 = 1499136 \<rparr>
   \<and> (1503232 :: int) + 4096 = 1507328
   \<and> (1499136 :: int) + 4096 = 1503232
   \<and> (1495040 :: int) + 4096 = 1499136
   \<and> (1490944 :: int) = (floor_div 1495040 4096 - 1) * 4096
   \<and> (0 :: int) < 4096 \<and> (0 :: int) \<le> 1507328
   \<and> (8 :: int) \<le> 4096 \<and> (0 :: int) < 1490944
   \<and> (1490944 :: int) < 1507328"
proof -
  have L: "calculateWLLayout 1507328 4096
     = Some \<lparr> stateSize = 4096, cfgSize = 4096, flashSize = 1490944, maxPos = 365,
              addrCfg = 1503232, addrState1 = 1495040, addrState2 = 1499136 \<rparr>"
    by (simp add: calculateWLLayout_def Let_def ceil_div_def floor_div_def
        WL_STATE_HEADER_SIZE_def)
  show ?thesis using calculateWLLayout_invariant[OF L] L by simp
qed

text \<open>
  C4. For \<open>partitionSize = 0x170000\<close> (1507328 bytes) and \<open>sectorSize = 4096\<close> the
  layout has \<open>cfgSize = 4096\<close>, and \<open>flashSize\<close> is
  \<open>partitionSize - 2 * stateSize - cfgSize\<close> less exactly one sector of 4096 bytes.
\<close>

theorem calculateWLLayout_0x170000:
  "\<exists>L. calculateWLLayout 0x170000 4096 = Some L
       \<and> cfgSize L = 4096
       \<and> flashSize L = 0x170000 - 2 * stateSize L - cfgSize L - 4096
       \<and> flashSize L < 0x170000 - 2 * stateSize L - cfgSize L"
  by (simp add: calculateWLLayout_def Let_def ceil_div_def floor_div_def
      WL_STATE_HEADER_SIZE_def)

section \<open>Checksum: the loops compute the specified checksum\<close>

lemma low_bit_test: "(c AND 1 \<noteq> 0) = bit c 0" for c :: "32 word"
  by (simp add: and_one_eq mod_2_eq_odd bit_0)

lemma crc_step_spec: "crc_step = spec_crc_round"
  by (rule ext) (simp add: crc_step_def spec_crc_round_def low_bit_test)

lemma top_bit_shifted: "\<not> bit (drop_bit 1 c) 31" for c :: "32 word"
  by (auto simp add: bit_simps dest: bit_imp_le_length)

lemma bit_shift_restore:
  "bit (push_bit 1 (drop_bit 1 c)) n = (bit c n \<and> n \<noteq> 0)" for c :: "32 word"
  unfolding bit_push_bit_iff bit_drop_bit_eq
  by (cases n) (auto dest: bit_imp_le_length)

lemma push_xor_cancel: "push_bit 1 ((a XOR b) XOR b) = push_bit 1 a" for a b :: "32 word"
  by (simp add: xor.assoc)

lemma crc_unstep_step: "crc_unstep (crc_step c) = c"
proof (cases "bit c 0")
  case True
  have b31: "bit (drop_bit 1 c XOR 0xEDB88320) 31"
    using top_bit_shifted[of c] by (simp add: bit_xor_iff)
  have restore: "push_bit 1 (drop_bit 1 c) OR 1 = c"
  proof (rule bit_word_eqI)
    fix n show "bit (push_bit 1 (drop_bit 1 c) OR 1) n = bit c n"
      unfolding bit_or_iff bit_shift_restore bit_1_iff using True by (cases n) auto
  qed
  have s: "crc_step c = drop_bit 1 c XOR 0xEDB88320"
    using True by (simp add: crc_step_def low_bit_test)
  have u: "crc_unstep (drop_bit 1 c XOR 0xEDB88320)
             = push_bit 1 ((drop_bit 1 c XOR 0xEDB88320) XOR 0xEDB88320) OR 1"
    unfolding crc_unstep_def using b31 by (simp only: if_True)
  show ?thesis unfolding s u push_xor_cancel by (fact restore)
next
  case False
  have restore: "push_bit 1 (drop_bit 1 c) = c"
  proof (rule bit_word_eqI)
    fix n show "bit (push_bit 1 (drop_bit 1 c)) n = bit c n"
      unfolding bit_shift_restore using False by (cases n) auto
  qed
  have s: "crc_step c = drop_bit 1 c"
    using False by (simp add: crc_step_def low_bit_test)
  have u: "crc_unstep (drop_bit 1 c) = push_bit 1 (drop_bit 1 c)"
    unfolding crc_unstep_def using top_bit_shifted[of c] by (simp only: if_False)
  show ?thesis unfolding s u by (fact restore)
qed

lemma crc_step_inj: "inj crc_step"
  by (rule inj_on_inverseI[where g = crc_unstep]) (rule crc_unstep_step)

lemma crc_bits_funpow: "crc_bits j crc = (crc_step ^^ (8 - j)) crc"
proof (induction j crc rule: crc_bits.induct)
  case (1 j crc)
  show ?case
  proof (cases "j < 8")
    case True
    then have "8 - j = Suc (8 - Suc j)" by simp
    then show ?thesis using 1[OF True] True
      by (simp add: funpow_swap1 del: crc_bits.simps add: crc_bits.simps[of j])
  next
    case False
    then show ?thesis by simp
  qed
qed

lemma crc_bits_spec: "crc_bits 0 (crc XOR ucast b) = spec_crc_byte crc b"
  by (simp add: crc_bits_funpow spec_crc_byte_def crc_step_spec del: crc_bits.simps)

lemma wlCrc32_loop_foldl:
  "wlCrc32_loop buf i crc = foldl spec_crc_byte crc (drop i buf)"
proof (induction buf i crc rule: wlCrc32_loop.induct)
  case (1 buf i crc)
  show ?case
  proof (cases "i < length buf")
    case True
    then have d: "drop i buf = buf ! i # drop (Suc i) buf"
      by (simp add: Cons_nth_drop_Suc)
    show ?thesis using 1[OF True] True
      by (simp add: d crc_bits_spec del: crc_bits.simps wlCrc32_loop.simps
               add: wlCrc32_loop.simps[of buf i])
  next
    case False
    then show ?thesis by simp
  qed
qed

lemma wlCrc32_eq_spec: "wlCrc32 buf = uint (spec_crc32 buf)"
  by (simp add: wlCrc32_def spec_crc32_def wlCrc32_loop_foldl del: wlCrc32_loop.simps)

lemma spec_crc_byte_inj_acc: "spec_crc_byte a b = spec_crc_byte a' b \<Longrightarrow> a = a'"
proof -
  assume h: "spec_crc_byte a b = spec_crc_byte a' b"
  have "inj (crc_step ^^ 8)" using crc_step_inj by (rule inj_fn)
  then have "a XOR ucast b = a' XOR ucast b"
    using h by (simp add: spec_crc_byte_def crc_step_spec[symmetric] inj_eq)
  then have "(a XOR ucast b) XOR ucast b = (a' XOR ucast b) XOR ucast b" by simp
  then show ?thesis by (simp add: xor.assoc)
qed

lemma ucast_byte_inj:
  assumes "(ucast (b :: byte) :: 32 word) = ucast b'"
  shows "b = b'"
proof -
  have up: "is_up (ucast :: byte \<Rightarrow> 32 word)" by (simp add: is_up)
  have "uint b = uint b'" using assms uint_up_ucast[OF up] by metis
  then show ?thesis by (simp add: word_uint_eq_iff)
qed

lemma spec_crc_byte_inj_byte: "spec_crc_byte a b = spec_crc_byte a b' \<Longrightarrow> b = b'"
proof -
  assume h: "spec_crc_byte a b = spec_crc_byte a b'"
  have "inj (crc_step ^^ 8)" using crc_step_inj by (rule inj_fn)
  then have e: "a XOR ucast b = a XOR ucast b'"
    using h by (simp add: spec_crc_byte_def crc_step_spec[symmetric] inj_eq)
  have "a XOR (a XOR ucast b) = a XOR (a XOR ucast b')" by (simp only: e)
  then have "(ucast b :: 32 word) = ucast b'" by (simp add: xor.assoc[symmetric])
  then show ?thesis by (rule ucast_byte_inj)
qed

lemma foldl_crc_inj: "foldl spec_crc_byte a xs = foldl spec_crc_byte a' xs \<Longrightarrow> a = a'"
  by (induction xs arbitrary: a a') (auto dest: spec_crc_byte_inj_acc)

lemma spec_crc32_byte_change:
  assumes i: "i < length buf" and b: "b \<noteq> buf ! i"
  shows "spec_crc32 (buf[i := b]) \<noteq> spec_crc32 buf"
proof
  assume e: "spec_crc32 (buf[i := b]) = spec_crc32 buf"
  let ?a = "foldl spec_crc_byte 0xFFFFFFFF (take i buf)"
  have u: "buf[i := b] = take i buf @ b # drop (Suc i) buf"
    using i by (rule upd_conv_take_nth_drop)
  have o: "buf = take i buf @ buf ! i # drop (Suc i) buf"
    using i by (rule id_take_nth_drop)
  have "foldl spec_crc_byte (spec_crc_byte ?a b) (drop (Suc i) buf)
      = spec_crc32 (buf[i := b])"
    by (simp add: spec_crc32_def u)
  also have "\<dots> = spec_crc32 buf" by (rule e)
  also have "\<dots> = foldl spec_crc_byte ?a (buf ! i # drop (Suc i) buf)"
    unfolding spec_crc32_def by (subst o) (simp only: foldl_append)
  finally have "spec_crc_byte ?a b = spec_crc_byte ?a (buf ! i)"
    by (auto dest: foldl_crc_inj)
  then show False using b by (auto dest: spec_crc_byte_inj_byte)
qed

text \<open>
  C5. For every buffer, \<open>wlCrc32\<close> is the checksum of the specification: seed
  \<open>0xFFFFFFFF\<close>, per byte an XOR into the low byte and eight rounds with polynomial
  \<open>0xEDB88320\<close>, and the accumulator returned with no final complement (the empty
  buffer yields the seed itself). Replacing any single byte of a buffer by a different
  byte changes the checksum.
\<close>

theorem wlCrc32_no_final_xor_and_sensitive:
  "wlCrc32 buf = uint (spec_crc32 buf)
   \<and> wlCrc32 [] = 0xFFFFFFFF
   \<and> (i < length buf \<and> b \<noteq> buf ! i \<longrightarrow> wlCrc32 (buf[i := b]) \<noteq> wlCrc32 buf)"
proof (intro conjI impI)
  show "wlCrc32 buf = uint (spec_crc32 buf)" by (rule wlCrc32_eq_spec)
  show "wlCrc32 [] = 0xFFFFFFFF" by (simp add: wlCrc32_def)
next
  assume "i < length buf \<and> b \<noteq> buf ! i"
  then have "spec_crc32 (buf[i := b]) \<noteq> spec_crc32 buf"
    by (simp add: spec_crc32_byte_change)
  then show "wlCrc32 (buf[i := b]) \<noteq> wlCrc32 buf"
    by (simp add: wlCrc32_eq_spec word_uint_eq_iff[symmetric])
qed

theorem wlCrc32_no_final_xor_and_sensitive_witness:
  "wlCrc32 [1, 2, 3] = uint (spec_crc32 [1, 2, 3])
   \<and> (1::nat) < length [1, 2, 3 :: byte] \<and> (7 :: byte) \<noteq> [1, 2, 3] ! 1
   \<and> wlCrc32 ([1, 2, 3][1 := 7]) \<noteq> wlCrc32 [1, 2, 3]"
  using wlCrc32_no_final_xor_and_sensitive[of "[1, 2, 3]" 1 7] by simp

section \<open>Assembler: the records and the copies\<close>

lemma length_le32 [simp]: "length (le32 v) = 4"
  by (simp add: le32_def)

lemma writeUInt32LE_ok:
  "0 \<le> v \<Longrightarrow> v < 2 ^ 32 \<Longrightarrow> offset + 4 \<le> length buf \<Longrightarrow>
   writeUInt32LE buf v offset = Inr (take offset buf @ le32 v @ drop (offset + 4) buf)"
  by (simp add: writeUInt32LE_def)

lemma bind_result_Inr [simp]: "bind_result (Inr x) f = f x"
  by (simp add: bind_result_def)

lemma bind_result_Inl [simp]: "bind_result (Inl e) f = Inl e"
  by (simp add: bind_result_def)

lemma wlCrc32_range: "0 \<le> wlCrc32 buf" "wlCrc32 buf < 4294967296"
proof -
  show "0 \<le> wlCrc32 buf" by (simp add: wlCrc32_def del: wlCrc32_loop.simps)
  have "uint (wlCrc32_loop buf 0 0xFFFFFFFF) < 2 ^ LENGTH(32)" by (rule uint_lt2p)
  then show "wlCrc32 buf < 4294967296" by (simp add: wlCrc32_def del: wlCrc32_loop.simps)
qed

lemma length_spec_config_fields [simp]: "length (spec_config_fields p s) = 32"
  by (simp add: spec_config_fields_def)

lemma length_spec_state_fields [simp]: "length (spec_state_fields p s m) = 60"
  by (simp add: spec_state_fields_def)

lemma buildConfig_ok:
  assumes p: "0 \<le> p" "p < 2 ^ 32" and s: "0 \<le> s" "s < 2 ^ 32"
  shows "buildConfig p s = Inr (spec_config_record p s, wlCrc32 (spec_config_fields p s))"
  unfolding buildConfig_def using p s
  by (simp add: writeUInt32LE_ok Let_def subarray_def wlCrc32_range
      spec_config_record_def spec_config_fields_def)

lemma buildStateHeader_ok:
  assumes m: "0 \<le> m" "m < 2 ^ 32" and s: "0 \<le> s" "s < 2 ^ 32"
  shows "buildStateHeader m s (wlCrc32 (spec_config_fields p s)) = Inr (spec_state_record p s m)"
  unfolding buildStateHeader_def using m s
  by (simp add: writeUInt32LE_ok Let_def subarray_def wlCrc32_range
      spec_state_record_def spec_state_fields_def)

lemma length_spec_config_record [simp]: "length (spec_config_record p s) = 36"
  by (simp add: spec_config_record_def)

lemma length_spec_state_record [simp]: "length (spec_state_record p s m) = 64"
  by (simp add: spec_state_record_def)

text \<open>A copy that fits replaces exactly the bytes it covers.\<close>

lemma Buffer_copy_fits:
  assumes "0 \<le> a" and "nat a + length src \<le> length tgt"
  shows "Buffer_copy src tgt a = Inr (take (nat a) tgt @ src @ drop (nat a + length src) tgt)"
proof (cases "length tgt \<le> nat a")
  case True
  then have "length src = 0" "nat a = length tgt" using assms by linarith+
  then have "src = []" "nat a = length tgt" by simp_all
  then show ?thesis using assms by (simp add: Buffer_copy_def)
next
  case False
  then have "min (length src) (length tgt - nat a) = length src" using assms by simp
  then show ?thesis using assms False by (simp add: Buffer_copy_def Let_def)
qed

lemma length_overlay: "a + length src \<le> length tgt \<Longrightarrow> length (overlay tgt a src) = length tgt"
  by (simp add: overlay_def)

lemma nth_overlay:
  assumes "a + length src \<le> length tgt" and "i < length tgt"
  shows "overlay tgt a src ! i = (if a \<le> i \<and> i < a + length src then src ! (i - a) else tgt ! i)"
  using assms by (auto simp: overlay_def nth_append)

lemma region_overlay_same:
  assumes "a + length src \<le> length tgt"
  shows "take (length src) (drop a (overlay tgt a src)) = src"
  using assms by (simp add: overlay_def)

lemma Buffer_copy_overlay:
  assumes "0 \<le> a" and "nat a + length src \<le> length tgt"
  shows "Buffer_copy src tgt a = Inr (overlay tgt (nat a) src)"
  using Buffer_copy_fits[OF assms] by (simp add: overlay_def)

lemma assembled_shape:
  assumes d: "S + length fat \<le> A1" "A1 + 64 \<le> A2" "A2 + 64 \<le> AC" "AC + 36 \<le> P"
    and c: "length cfg = 36" and t: "length st = 64"
  shows "length (assembled P S fat AC cfg A1 A2 st) = P"
    and "i < P \<Longrightarrow> assembled P S fat AC cfg A1 A2 st ! i =
          (if S \<le> i \<and> i < S + length fat then fat ! (i - S)
           else if A1 \<le> i \<and> i < A1 + 64 then st ! (i - A1)
           else if A2 \<le> i \<and> i < A2 + 64 then st ! (i - A2)
           else if AC \<le> i \<and> i < AC + 36 then cfg ! (i - AC)
           else 0xFF)"
proof -
  let ?I1 = "overlay (replicate P 0xFF) S fat"
  let ?I2 = "overlay ?I1 AC cfg"
  let ?I3 = "overlay ?I2 A1 st"
  have l1: "length ?I1 = P" using d by (simp add: length_overlay)
  have l2: "length ?I2 = P" using d c l1 by (simp add: length_overlay)
  have l3: "length ?I3 = P" using d t l2 by (simp add: length_overlay)
  show "length (assembled P S fat AC cfg A1 A2 st) = P"
    unfolding assembled_def using d t l3 by (simp add: length_overlay)
  assume i: "i < P"
  have n1: "?I1 ! i = (if S \<le> i \<and> i < S + length fat then fat ! (i - S) else 0xFF)"
    using d i by (simp add: nth_overlay)
  have n2: "?I2 ! i = (if AC \<le> i \<and> i < AC + 36 then cfg ! (i - AC) else ?I1 ! i)"
    using d c i l1 by (simp add: nth_overlay)
  have n3: "?I3 ! i = (if A1 \<le> i \<and> i < A1 + 64 then st ! (i - A1) else ?I2 ! i)"
    using d t i l2 by (simp add: nth_overlay)
  have n4: "overlay ?I3 A2 st ! i = (if A2 \<le> i \<and> i < A2 + 64 then st ! (i - A2) else ?I3 ! i)"
    using d t i l3 by (simp add: nth_overlay)
  show "assembled P S fat AC cfg A1 A2 st ! i =
          (if S \<le> i \<and> i < S + length fat then fat ! (i - S)
           else if A1 \<le> i \<and> i < A1 + 64 then st ! (i - A1)
           else if A2 \<le> i \<and> i < A2 + 64 then st ! (i - A2)
           else if AC \<le> i \<and> i < AC + 36 then cfg ! (i - AC)
           else 0xFF)"
    unfolding assembled_def n4 n3 n2 n1 using d by auto
qed

lemma take_drop_eqI:
  assumes "a + length xs \<le> length img" and "\<And>k. k < length xs \<Longrightarrow> img ! (a + k) = xs ! k"
  shows "take (length xs) (drop a img) = xs"
  using assms by (intro nth_equalityI) auto

lemma floor_div_le_self: "0 < b \<Longrightarrow> 0 \<le> a \<Longrightarrow> floor_div a b \<le> a"
proof (cases "a = 0")
  case True
  then show ?thesis by (simp add: floor_div_def)
next
  case False
  assume "0 \<le> a"
  with False have "0 < a" by simp
  then show ?thesis unfolding floor_div_def by (rule int_div_le_self)
qed

lemma wrapWithWearLeveling_ok:
  assumes s: "0 < s" and p: "0 \<le> p" "p < 2 ^ 32"
    and L: "calculateWLLayout p s = Some L"
    and len: "int (length fat) = flashSize L"
  shows "wrapWithWearLeveling fat p s =
           Inr (assembled (nat p) (nat s) fat (nat (addrCfg L)) (spec_config_record p s)
                  (nat (addrState1 L)) (nat (addrState2 L)) (spec_state_record p s (maxPos L)))"
    and "nat s + length fat \<le> nat (addrState1 L)"
    and "nat (addrState1 L) + nat (stateSize L) = nat (addrState2 L)"
    and "nat (addrState2 L) + nat (stateSize L) = nat (addrCfg L)"
    and "nat (addrCfg L) + 36 \<le> nat p"
    and "64 \<le> nat (stateSize L)"
    and "0 \<le> addrState1 L"
proof -
  note fb = layout_flash_below[OF s p(1) L]
  have eqs: "addrCfg L + cfgSize L = p" "addrState2 L + stateSize L = addrCfg L"
       "addrState1 L + stateSize L = addrState2 L"
       "maxPos L = floor_div (flashSize L) s + 1"
    using L by (auto simp: calculateWLLayout_def Let_def split: if_splits)
  have f0: "0 \<le> flashSize L" using len by simp
  show a1: "0 \<le> addrState1 L" using fb(1) f0 s by simp
  show d1: "nat s + length fat \<le> nat (addrState1 L)" using fb(1) len s by linarith
  show d2: "nat (addrState1 L) + nat (stateSize L) = nat (addrState2 L)"
    using eqs a1 fb(3) by linarith
  show d3: "nat (addrState2 L) + nat (stateSize L) = nat (addrCfg L)"
    using eqs a1 fb(3) by linarith
  show d4: "nat (addrCfg L) + 36 \<le> nat p" using eqs a1 fb(3,4) by linarith
  show d5: "64 \<le> nat (stateSize L)" using fb(3) by linarith
  have s32: "s < 2 ^ 32" using fb(1,2) f0 p by linarith
  have m0: "0 \<le> maxPos L" using eqs(4) floor_div_nonneg[OF s f0] by simp
  have "floor_div (flashSize L) s \<le> flashSize L" using s f0 by (rule floor_div_le_self)
  then have m32: "maxPos L < 2 ^ 32" using eqs(4) fb(1,2) s p by linarith
  have c0: "0 \<le> addrCfg L" using eqs a1 fb(3) by linarith
  have c2: "0 \<le> addrState2 L" using eqs a1 fb(3) by linarith
  let ?I0 = "replicate (nat p) (0xFF :: byte)"
  let ?I1 = "overlay ?I0 (nat s) fat"
  let ?cfg = "spec_config_record p s"
  let ?st = "spec_state_record p s (maxPos L)"
  let ?I2 = "overlay ?I1 (nat (addrCfg L)) ?cfg"
  let ?I3 = "overlay ?I2 (nat (addrState1 L)) ?st"
  have l1: "length ?I1 = nat p" using d1 d2 d3 d4 by (simp add: length_overlay)
  have l2: "length ?I2 = nat p" using d4 l1 by (simp add: length_overlay)
  have l3: "length ?I3 = nat p" using d2 d3 d4 d5 l2 by (simp add: length_overlay)
  have k1: "Buffer_copy fat ?I0 s = Inr ?I1"
    using s d1 d2 d3 d4 by (intro Buffer_copy_overlay) simp_all
  have k2: "Buffer_copy ?cfg ?I1 (addrCfg L) = Inr ?I2"
    using c0 d4 l1 by (intro Buffer_copy_overlay) simp_all
  have k3: "Buffer_copy ?st ?I2 (addrState1 L) = Inr ?I3"
    using a1 d2 d3 d4 d5 l2 by (intro Buffer_copy_overlay) simp_all
  have k4: "Buffer_copy ?st ?I3 (addrState2 L) = Inr (overlay ?I3 (nat (addrState2 L)) ?st)"
    using c2 d2 d3 d4 d5 l3 by (intro Buffer_copy_overlay) simp_all
  have bc: "buildConfig p s = Inr (?cfg, wlCrc32 (spec_config_fields p s))"
    using p s s32 by (intro buildConfig_ok) simp_all
  have bs: "buildStateHeader (maxPos L) s (wlCrc32 (spec_config_fields p s)) = Inr ?st"
    using m0 m32 s s32 by (intro buildStateHeader_ok) simp_all
  show "wrapWithWearLeveling fat p s =
           Inr (assembled (nat p) (nat s) fat (nat (addrCfg L)) (spec_config_record p s)
                  (nat (addrState1 L)) (nat (addrState2 L)) (spec_state_record p s (maxPos L)))"
    unfolding wrapWithWearLeveling_def assembled_def
    using L len p by (simp add: Buffer_alloc_def k1 bc k2 bs k3 k4)
qed

section \<open>Assembler: the claims\<close>

lemma layout_512_64:
  "calculateWLLayout 512 64
     = Some \<lparr> stateSize = 128, cfgSize = 64, flashSize = 128, maxPos = 3,
              addrCfg = 448, addrState1 = 192, addrState2 = 320 \<rparr>"
  by (simp add: calculateWLLayout_def Let_def ceil_div_def floor_div_def
      WL_STATE_HEADER_SIZE_def)

lemma region_sub:
  assumes "0 \<le> a" and "k + n \<le> m"
  shows "region img (a + int k) n = take n (drop k (region img a m))"
proof -
  have "take n (drop k (take m (drop (nat a) img))) = take n (drop (nat a + k) img)"
    using assms(2) by (simp add: drop_take min_def add.commute)
  then show ?thesis using assms(1) by (simp add: region_def nat_add_distrib)
qed

text \<open>
  C7. Whenever the length of the raw image differs from the layout's \<open>flashSize\<close>
  (by one byte or by more, and also when \<open>flashSize\<close> is not a number), the assembler
  throws the size-mismatch error: there is no output buffer, the image is neither
  truncated nor padded.
\<close>

theorem wrapWithWearLeveling_size_mismatch:
  assumes "map_option flashSize (calculateWLLayout partitionSize sectorSize)
             \<noteq> Some (int (length fatImage))"
  shows "wrapWithWearLeveling fatImage partitionSize sectorSize = Inl SizeMismatch"
  using assms by (auto simp: wrapWithWearLeveling_def split: option.splits)

theorem wrapWithWearLeveling_size_mismatch_witness:
  "map_option flashSize (calculateWLLayout 512 64) \<noteq> Some (int (length (replicate 127 (0x41 :: byte))))
   \<and> wrapWithWearLeveling (replicate 127 0x41) 512 64 = Inl SizeMismatch
   \<and> map_option flashSize (calculateWLLayout 512 64) \<noteq> Some (int (length (replicate 129 (0x41 :: byte))))
   \<and> wrapWithWearLeveling (replicate 129 0x41) 512 64 = Inl SizeMismatch"
proof -
  have f: "map_option flashSize (calculateWLLayout 512 64) = Some 128"
    by (simp add: calculateWLLayout_def Let_def ceil_div_def floor_div_def
        WL_STATE_HEADER_SIZE_def)
  have a: "map_option flashSize (calculateWLLayout 512 64)
             \<noteq> Some (int (length (replicate 127 (0x41 :: byte))))"
    unfolding f by simp
  have b: "map_option flashSize (calculateWLLayout 512 64)
             \<noteq> Some (int (length (replicate 129 (0x41 :: byte))))"
    unfolding f by simp
  show ?thesis
    using a b wrapWithWearLeveling_size_mismatch[OF a] wrapWithWearLeveling_size_mismatch[OF b]
    by blast
qed

text \<open>
  C1. Sizes are byte counts that the 32-bit fields of the records can hold: a positive
  sector size and a partition size in \<open>[0, 2 ^ 32)\<close>. For every raw image whose length
  equals \<open>flashSize\<close> the assembler returns a buffer of exactly \<open>partitionSize\<close> bytes
  in which the bytes \<open>[sectorSize, sectorSize + flashSize)\<close> are the raw image, the
  bytes \<open>[0, sectorSize)\<close> are \<open>0xFF\<close>, and every byte outside the raw image, the 36
  bytes at \<open>addrCfg\<close> and the 64 bytes at \<open>addrState1\<close> and at \<open>addrState2\<close> is
  \<open>0xFF\<close>; in particular the rest of both state regions, after their 64-byte headers,
  is \<open>0xFF\<close>.
\<close>

theorem wrapWithWearLeveling_image:
  assumes s: "0 < sectorSize" and p: "0 \<le> partitionSize" "partitionSize < 2 ^ 32"
    and L: "calculateWLLayout partitionSize sectorSize = Some L"
    and len: "int (length fatImage) = flashSize L"
  shows "\<exists>img. wrapWithWearLeveling fatImage partitionSize sectorSize = Inr img
           \<and> int (length img) = partitionSize
           \<and> region img sectorSize (nat (flashSize L)) = fatImage
           \<and> (\<forall>i < nat sectorSize. img ! i = 0xFF)
           \<and> (\<forall>i < length img.
                 \<not> within i sectorSize (flashSize L) \<and> \<not> within i (addrCfg L) 36
                 \<and> \<not> within i (addrState1 L) 64 \<and> \<not> within i (addrState2 L) 64
                 \<longrightarrow> img ! i = 0xFF)
           \<and> (\<forall>i. within i (addrState1 L + 64) (stateSize L - 64)
                    \<or> within i (addrState2 L + 64) (stateSize L - 64)
                 \<longrightarrow> img ! i = 0xFF)"
proof -
  note ok = wrapWithWearLeveling_ok[OF s p L len]
  let ?img = "assembled (nat partitionSize) (nat sectorSize) fatImage (nat (addrCfg L))
                (spec_config_record partitionSize sectorSize)
                (nat (addrState1 L)) (nat (addrState2 L))
                (spec_state_record partitionSize sectorSize (maxPos L))"
  have d: "nat sectorSize + length fatImage \<le> nat (addrState1 L)"
      "nat (addrState1 L) + 64 \<le> nat (addrState2 L)"
      "nat (addrState2 L) + 64 \<le> nat (addrCfg L)"
      "nat (addrCfg L) + 36 \<le> nat partitionSize"
    using ok(2-6) by linarith+
  note sh = assembled_shape[OF d length_spec_config_record length_spec_state_record]
  have lenI: "length ?img = nat partitionSize" by (rule sh(1))
  have nthI: "?img ! i =
          (if nat sectorSize \<le> i \<and> i < nat sectorSize + length fatImage
           then fatImage ! (i - nat sectorSize)
           else if nat (addrState1 L) \<le> i \<and> i < nat (addrState1 L) + 64
           then spec_state_record partitionSize sectorSize (maxPos L) ! (i - nat (addrState1 L))
           else if nat (addrState2 L) \<le> i \<and> i < nat (addrState2 L) + 64
           then spec_state_record partitionSize sectorSize (maxPos L) ! (i - nat (addrState2 L))
           else if nat (addrCfg L) \<le> i \<and> i < nat (addrCfg L) + 36
           then spec_config_record partitionSize sectorSize ! (i - nat (addrCfg L))
           else 0xFF)" if "i < nat partitionSize" for i
    using that by (rule sh(2))
  have c1: "int (length ?img) = partitionSize" using lenI p by simp
  have fl: "nat (flashSize L) = length fatImage" using len by simp
  have c2: "region ?img sectorSize (nat (flashSize L)) = fatImage"
    unfolding region_def fl
  proof (rule take_drop_eqI)
    show "nat sectorSize + length fatImage \<le> length ?img" using d lenI by linarith
    fix k assume "k < length fatImage"
    then show "?img ! (nat sectorSize + k) = fatImage ! k"
      using d by (subst nthI) auto
  qed
  have c3: "\<forall>i < nat sectorSize. ?img ! i = 0xFF"
  proof (intro allI impI)
    fix i assume "i < nat sectorSize"
    then show "?img ! i = 0xFF" using d by (subst nthI) auto
  qed
  have c4: "\<forall>i < length ?img.
                 \<not> within i sectorSize (flashSize L) \<and> \<not> within i (addrCfg L) 36
                 \<and> \<not> within i (addrState1 L) 64 \<and> \<not> within i (addrState2 L) 64
                 \<longrightarrow> ?img ! i = 0xFF"
  proof (intro allI impI)
    fix i assume i: "i < length ?img"
      and w: "\<not> within i sectorSize (flashSize L) \<and> \<not> within i (addrCfg L) 36
                 \<and> \<not> within i (addrState1 L) 64 \<and> \<not> within i (addrState2 L) 64"
    have "\<not> (nat sectorSize \<le> i \<and> i < nat sectorSize + length fatImage)"
      using w s len by (auto simp: within_def)
    moreover have "\<not> (nat (addrState1 L) \<le> i \<and> i < nat (addrState1 L) + 64)"
      using w ok(7) by (auto simp: within_def)
    moreover have "\<not> (nat (addrState2 L) \<le> i \<and> i < nat (addrState2 L) + 64)"
      using w ok(7) d by (auto simp: within_def)
    moreover have "\<not> (nat (addrCfg L) \<le> i \<and> i < nat (addrCfg L) + 36)"
      using w ok(7) d by (auto simp: within_def)
    ultimately show "?img ! i = 0xFF" using i lenI by (subst nthI) auto
  qed
  have c5: "\<forall>i. within i (addrState1 L + 64) (stateSize L - 64)
                    \<or> within i (addrState2 L + 64) (stateSize L - 64)
                 \<longrightarrow> ?img ! i = 0xFF"
  proof (intro allI impI)
    fix i assume w: "within i (addrState1 L + 64) (stateSize L - 64)
                    \<or> within i (addrState2 L + 64) (stateSize L - 64)"
    then have r: "(nat (addrState1 L) + 64 \<le> i \<and> i < nat (addrState2 L))
               \<or> (nat (addrState2 L) + 64 \<le> i \<and> i < nat (addrCfg L))"
      using ok(3,4,6,7) by (auto simp: within_def)
    then have "i < nat partitionSize" using d by linarith
    then show "?img ! i = 0xFF" using r d by (subst nthI) auto
  qed
  show ?thesis using ok(1) c1 c2 c3 c4 c5 by blast
qed

theorem wrapWithWearLeveling_image_witness:
  "(0 :: int) < 64 \<and> (0 :: int) \<le> 512 \<and> (512 :: int) < 2 ^ 32
   \<and> int (length (replicate 128 (0x41 :: byte))) = 128
   \<and> (\<exists>img. wrapWithWearLeveling (replicate 128 0x41) 512 64 = Inr img
          \<and> int (length img) = 512
          \<and> region img 64 128 = replicate 128 0x41
          \<and> img ! 0 = 0xFF \<and> img ! 63 = 0xFF
          \<and> img ! 256 = 0xFF \<and> img ! 319 = 0xFF
          \<and> img ! 384 = 0xFF \<and> img ! 447 = 0xFF
          \<and> img ! 484 = 0xFF \<and> img ! 511 = 0xFF)"
proof -
  let ?L = "\<lparr> stateSize = 128, cfgSize = 64, flashSize = 128, maxPos = 3,
              addrCfg = 448, addrState1 = 192, addrState2 = 320 \<rparr>"
  have len: "int (length (replicate 128 (0x41 :: byte))) = flashSize ?L" by simp
  obtain img where w: "wrapWithWearLeveling (replicate 128 0x41) 512 64 = Inr img"
    and l: "int (length img) = 512"
    and r: "region img 64 (nat (flashSize ?L)) = replicate 128 0x41"
    and a: "\<forall>i < nat 64. img ! i = 0xFF"
    and b: "\<forall>i < length img.
                 \<not> within i 64 (flashSize ?L) \<and> \<not> within i (addrCfg ?L) 36
                 \<and> \<not> within i (addrState1 ?L) 64 \<and> \<not> within i (addrState2 ?L) 64
                 \<longrightarrow> img ! i = 0xFF"
    and c: "\<forall>i. within i (addrState1 ?L + 64) (stateSize ?L - 64)
                    \<or> within i (addrState2 ?L + 64) (stateSize ?L - 64)
                 \<longrightarrow> img ! i = 0xFF"
    using wrapWithWearLeveling_image[OF _ _ _ layout_512_64 len] by auto
  have "img ! 0 = 0xFF" "img ! 63 = 0xFF" using a by simp_all
  moreover have "img ! 256 = 0xFF" "img ! 319 = 0xFF" "img ! 384 = 0xFF" "img ! 447 = 0xFF"
    using c by (simp_all add: within_def)
  moreover have "img ! 484 = 0xFF" "img ! 511 = 0xFF"
    using b l by (simp_all add: within_def)
  ultimately show ?thesis using w l r by simp
qed

text \<open>
  C2. For the same inputs, the 36 bytes at \<open>addrCfg\<close> are the eight little-endian
  fields \<open>0\<close>, \<open>partitionSize\<close>, \<open>sectorSize\<close>, \<open>sectorSize\<close>, \<open>16\<close>, \<open>16\<close>, \<open>2\<close>, \<open>32\<close>
  followed by the checksum of those 32 bytes; the 64 bytes at \<open>addrState1\<close> and at
  \<open>addrState2\<close> are identical, with the fields \<open>0\<close>, \<open>maxPos\<close>, \<open>0\<close>, \<open>0\<close>, \<open>16\<close>,
  \<open>sectorSize\<close>, \<open>2\<close>, the checksum of the first 32 bytes of the config record, 28
  zero bytes, and the checksum of the preceding 60 bytes.
\<close>

theorem wrapWithWearLeveling_records:
  assumes s: "0 < sectorSize" and p: "0 \<le> partitionSize" "partitionSize < 2 ^ 32"
    and L: "calculateWLLayout partitionSize sectorSize = Some L"
    and len: "int (length fatImage) = flashSize L"
  shows "\<exists>img. wrapWithWearLeveling fatImage partitionSize sectorSize = Inr img
           \<and> region img (addrCfg L) 36 = spec_config_record partitionSize sectorSize
           \<and> region img (addrCfg L + 32) 4 = le32 (wlCrc32 (region img (addrCfg L) 32))
           \<and> region img (addrState1 L) 64
                = spec_state_record partitionSize sectorSize (maxPos L)
           \<and> region img (addrState2 L) 64 = region img (addrState1 L) 64
           \<and> region img (addrState1 L + 28) 4 = le32 (wlCrc32 (region img (addrCfg L) 32))
           \<and> region img (addrState1 L + 60) 4 = le32 (wlCrc32 (region img (addrState1 L) 60))"
proof -
  note ok = wrapWithWearLeveling_ok[OF s p L len]
  let ?cfg = "spec_config_record partitionSize sectorSize"
  let ?st = "spec_state_record partitionSize sectorSize (maxPos L)"
  let ?img = "assembled (nat partitionSize) (nat sectorSize) fatImage (nat (addrCfg L))
                ?cfg (nat (addrState1 L)) (nat (addrState2 L)) ?st"
  have d: "nat sectorSize + length fatImage \<le> nat (addrState1 L)"
      "nat (addrState1 L) + 64 \<le> nat (addrState2 L)"
      "nat (addrState2 L) + 64 \<le> nat (addrCfg L)"
      "nat (addrCfg L) + 36 \<le> nat partitionSize"
    using ok(2-6) by linarith+
  note sh = assembled_shape[OF d length_spec_config_record length_spec_state_record]
  have lenI: "length ?img = nat partitionSize" by (rule sh(1))
  have c0: "0 \<le> addrCfg L" using ok(3,4,6,7) by linarith
  have rc: "region ?img (addrCfg L) 36 = ?cfg"
  proof -
    have "take (length ?cfg) (drop (nat (addrCfg L)) ?img) = ?cfg"
    proof (rule take_drop_eqI)
      show "nat (addrCfg L) + length ?cfg \<le> length ?img" using d lenI by simp
      fix k assume "k < length ?cfg"
      then show "?img ! (nat (addrCfg L) + k) = ?cfg ! k"
        using d by (subst sh(2)) auto
    qed
    then show ?thesis by (simp add: region_def)
  qed
  have r1: "region ?img (addrState1 L) 64 = ?st"
  proof -
    have "take (length ?st) (drop (nat (addrState1 L)) ?img) = ?st"
    proof (rule take_drop_eqI)
      show "nat (addrState1 L) + length ?st \<le> length ?img" using d lenI by simp
      fix k assume "k < length ?st"
      then show "?img ! (nat (addrState1 L) + k) = ?st ! k"
        using d by (subst sh(2)) auto
    qed
    then show ?thesis by (simp add: region_def)
  qed
  have r2: "region ?img (addrState2 L) 64 = ?st"
  proof -
    have "take (length ?st) (drop (nat (addrState2 L)) ?img) = ?st"
    proof (rule take_drop_eqI)
      show "nat (addrState2 L) + length ?st \<le> length ?img" using d lenI by simp
      fix k assume "k < length ?st"
      then show "?img ! (nat (addrState2 L) + k) = ?st ! k"
        using d by (subst sh(2)) auto
    qed
    then show ?thesis by (simp add: region_def)
  qed
  have rc32: "region ?img (addrCfg L) 32 = spec_config_fields partitionSize sectorSize"
    using region_sub[OF c0, of 0 32 36 ?img] unfolding rc
    by (simp add: spec_config_record_def)
  have rcc: "region ?img (addrCfg L + 32) 4
               = le32 (wlCrc32 (spec_config_fields partitionSize sectorSize))"
    using region_sub[OF c0, of 32 4 36 ?img] unfolding rc
    by (simp add: spec_config_record_def)
  have r160: "region ?img (addrState1 L) 60
                = spec_state_fields partitionSize sectorSize (maxPos L)"
    using region_sub[OF ok(7), of 0 60 64 ?img] unfolding r1
    by (simp add: spec_state_record_def)
  have r1c: "region ?img (addrState1 L + 60) 4
               = le32 (wlCrc32 (spec_state_fields partitionSize sectorSize (maxPos L)))"
    using region_sub[OF ok(7), of 60 4 64 ?img] unfolding r1
    by (simp add: spec_state_record_def)
  have r1d: "region ?img (addrState1 L + 28) 4
               = le32 (wlCrc32 (spec_config_fields partitionSize sectorSize))"
    using region_sub[OF ok(7), of 28 4 64 ?img] unfolding r1
    by (simp add: spec_state_record_def spec_state_fields_def)
  show ?thesis
    using ok(1) rc r1 r2 rc32 rcc r160 r1c r1d by simp
qed

theorem wrapWithWearLeveling_records_witness:
  "(0 :: int) < 64 \<and> (0 :: int) \<le> 512 \<and> (512 :: int) < 2 ^ 32
   \<and> int (length (replicate 128 (0x41 :: byte))) = 128
   \<and> (\<exists>img. wrapWithWearLeveling (replicate 128 0x41) 512 64 = Inr img
          \<and> region img 448 36 = spec_config_record 512 64
          \<and> region img 192 64 = spec_state_record 512 64 3
          \<and> region img 320 64 = region img 192 64)"
proof -
  let ?L = "\<lparr> stateSize = 128, cfgSize = 64, flashSize = 128, maxPos = 3,
              addrCfg = 448, addrState1 = 192, addrState2 = 320 \<rparr>"
  have len: "int (length (replicate 128 (0x41 :: byte))) = flashSize ?L" by simp
  show ?thesis
    using wrapWithWearLeveling_records[OF _ _ _ layout_512_64 len] by auto
qed

section \<open>Numeric literal parser: the source against the specification\<close>

lemma indexOf_from_sublist: "(0 \<le> indexOf_from s pat i) = sublist pat s"
proof (induction s arbitrary: i)
  case Nil
  then show ?case by simp
next
  case (Cons c cs)
  then show ?case by (simp add: sublist_Cons_right)
qed

lemma indexOf_sublist: "(0 \<le> indexOf s pat) = sublist pat s"
  by (simp add: indexOf_def indexOf_from_sublist)

lemma sublist_single: "sublist [c] s = (c \<in> set s)"
  by (induction s) (auto simp: sublist_Cons_right)

lemma prefix_single: "prefix [c] (x # xs) = (c = x)"
  by simp

lemma indexOf_from_char:
  "c \<in> set s \<Longrightarrow> indexOf_from s [c] i = int (i + length (takeWhile (\<lambda>x. x \<noteq> c) s))"
proof (induction s arbitrary: i)
  case Nil
  then show ?case by simp
next
  case (Cons x xs)
  show ?case
  proof (cases "c = x")
    case True
    then show ?thesis by simp
  next
    case False
    then have "c \<in> set xs" using Cons.prems by simp
    then have "indexOf_from xs [c] (Suc i) = int (Suc i + length (takeWhile (\<lambda>x. x \<noteq> c) xs))"
      by (rule Cons.IH)
    then show ?thesis using False by simp
  qed
qed

lemma substring_before_char:
  assumes "c \<in> set s"
  shows "substring s 0 (nat (indexOf s [c])) = takeWhile (\<lambda>x. x \<noteq> c) s"
  using assms
  by (simp add: substring_def indexOf_def indexOf_from_char takeWhile_eq_take[symmetric])

text \<open>Upper-casing and trimming keep an occurrence of the hex marker.\<close>

lemma toUpperChar_x: "toUpperChar c \<noteq> CHR ''x''"
  by (simp add: toUpperChar_def)

lemma toUpperChar_marker:
  "toUpperChar CHR ''0'' = CHR ''0''" "toUpperChar CHR ''x'' = CHR ''X''"
  "toUpperChar CHR ''X'' = CHR ''X''"
  by (simp_all add: toUpperChar_def)

lemma sublist_toUpperCase:
  assumes "sublist ''0x'' s \<or> sublist ''0X'' s"
  shows "sublist ''0X'' (toUpperCase s)"
proof -
  from assms obtain ps ss m where s: "s = ps @ m @ ss" and m: "m = ''0x'' \<or> m = ''0X''"
    unfolding sublist_def by blast
  have "toUpperCase m = ''0X''" using m by (auto simp: toUpperCase_def toUpperChar_marker)
  then have "toUpperCase s = toUpperCase ps @ ''0X'' @ toUpperCase ss"
    unfolding s by (simp add: toUpperCase_def)
  then show ?thesis unfolding sublist_def by blast
qed

lemma dropWhile_keeps:
  assumes "\<not> P x"
  shows "\<exists>ps'. dropWhile P (ps @ x # rest) = ps' @ x # rest"
proof (cases "\<forall>y \<in> set ps. P y")
  case True
  then have "dropWhile P (ps @ x # rest) = [] @ x # rest"
    using assms by (simp add: dropWhile_append)
  then show ?thesis by blast
next
  case False
  then have "dropWhile P (ps @ x # rest) = dropWhile P ps @ x # rest"
    by (auto simp add: dropWhile_append)
  then show ?thesis by blast
qed

lemma sublist_trim:
  assumes "sublist ''0X'' t"
  shows "sublist ''0X'' (trim t)"
proof -
  from assms obtain ps ss where t: "t = ps @ CHR ''0'' # CHR ''X'' # ss"
    unfolding sublist_def by auto
  have n0: "\<not> isWhiteSpace CHR ''0''" and nX: "\<not> isWhiteSpace CHR ''X''"
    by (simp_all add: isWhiteSpace_def)
  obtain ps' where a: "dropWhile isWhiteSpace t = ps' @ CHR ''0'' # CHR ''X'' # ss"
    unfolding t using dropWhile_keeps[where P = isWhiteSpace and x = "CHR ''0''", OF n0] by blast
  have "rev (ps' @ CHR ''0'' # CHR ''X'' # ss) = (rev ss @ [CHR ''X'']) @ CHR ''0'' # rev ps'"
    by simp
  moreover have "rev (ps' @ CHR ''0'' # CHR ''X'' # ss) = rev ss @ CHR ''X'' # (CHR ''0'' # rev ps')"
    by simp
  ultimately obtain ss' where
    b: "dropWhile isWhiteSpace (rev (ps' @ CHR ''0'' # CHR ''X'' # ss))
          = ss' @ CHR ''X'' # (CHR ''0'' # rev ps')"
    using dropWhile_keeps[where P = isWhiteSpace and x = "CHR ''X''", OF nX,
        of "rev ss" "CHR ''0'' # rev ps'"] by auto
  have "trim t = ps' @ ''0X'' @ rev ss'"
    unfolding trim_def a b by simp
  then show ?thesis unfolding sublist_def by blast
qed

lemma set_trim: "set (trim t) \<subseteq> set t"
proof -
  have "set (trim t) = set (dropWhile isWhiteSpace (rev (dropWhile isWhiteSpace t)))"
    by (simp add: trim_def)
  also have "\<dots> \<subseteq> set (rev (dropWhile isWhiteSpace t))" by (rule set_dropWhileD[THEN subsetI]) 
  also have "\<dots> \<subseteq> set t" using set_dropWhileD by fastforce
  finally show ?thesis .
qed

lemma no_small_x_in_token: "CHR ''x'' \<notin> set (trim (toUpperCase s))"
proof
  assume "CHR ''x'' \<in> set (trim (toUpperCase s))"
  then have "CHR ''x'' \<in> set (toUpperCase s)" using set_trim by blast
  then obtain c where "toUpperChar c = CHR ''x''" by (auto simp: toUpperCase_def)
  then show False by (simp add: toUpperChar_x)
qed

text \<open>Without a hex marker, a missing radix is radix 10.\<close>

lemma parseInt_no_marker:
  assumes "\<not> sublist ''0x'' s" and "\<not> sublist ''0X'' s"
  shows "parseInt s 0 = parseInt s 10"
proof -
  let ?S = "dropWhile isWhiteSpace s"
  let ?S1 = "if ?S \<noteq> [] \<and> (hd ?S = CHR ''+'' \<or> hd ?S = CHR ''-'') then tl ?S else ?S"
  have "suffix ?S s" by (rule suffix_dropWhile)
  moreover have "suffix (tl ?S) ?S" by (rule suffix_tl)
  ultimately have "suffix (tl ?S) s" by (rule suffix_order.trans[rotated])
  then have suf: "suffix ?S1 s" using \<open>suffix ?S s\<close> by presburger
  have nohex: "take 2 ?S1 \<noteq> m" if m: "m = ''0x'' \<or> m = ''0X''" for m
  proof
    assume e: "take 2 ?S1 = m"
    have "prefix (take 2 ?S1) ?S1" by (rule take_is_prefix)
    then have "sublist m ?S1" unfolding e by (rule prefix_imp_sublist)
    moreover have "sublist ?S1 s" using suf by (rule suffix_imp_sublist)
    ultimately have "sublist m s" by (rule sublist_order.order.trans)
    then show False using assms m by auto
  qed
  have h1: "take 2 ?S1 \<noteq> ''0x''" and h2: "take 2 ?S1 \<noteq> ''0X''" using nohex by simp_all
  show ?thesis
    unfolding parseInt_def Let_def using h1 h2 by simp
qed

lemma token_no_marker:
  assumes "\<not> sublist ''0X'' (trim (toUpperCase s))"
  shows "\<not> sublist ''0x'' s" and "\<not> sublist ''0X'' s"
  using assms sublist_trim[OF sublist_toUpperCase, of s] by auto

lemma token_prefix_no_marker:
  assumes n: "\<not> sublist ''0X'' (trim (toUpperCase s))"
  shows "\<not> sublist ''0x'' (takeWhile P (trim (toUpperCase s)))"
    and "\<not> sublist ''0X'' (takeWhile P (trim (toUpperCase s)))"
proof -
  let ?up = "trim (toUpperCase s)"
  have sub: "sublist (takeWhile P ?up) ?up" by (rule sublist_takeWhile)
  show "\<not> sublist ''0X'' (takeWhile P ?up)"
    using n sub by (meson sublist_order.order.trans)
  show "\<not> sublist ''0x'' (takeWhile P ?up)"
  proof
    assume "sublist ''0x'' (takeWhile P ?up)"
    then have "sublist ''0x'' ?up" using sub by (rule sublist_order.order.trans)
    then have "set ''0x'' \<subseteq> set ?up" by (rule set_mono_sublist)
    then show False using no_small_x_in_token[of s] by simp
  qed
qed

lemma fancyParseInt_eq_spec: "fancyParseInt str = spec_fancyParseInt str"
proof -
  let ?up = "trim (toUpperCase str)"
  show ?thesis
  proof (cases "sublist ''0X'' ?up")
    case True
    then show ?thesis
      by (simp add: fancyParseInt_def spec_fancyParseInt_def Let_def indexOf_sublist)
  next
    case False
    note nm = token_no_marker[OF False] token_prefix_no_marker[OF False]
    have d: "parseInt str 0 = parseInt str 10" using nm(1,2) by (rule parseInt_no_marker)
    have k: "parseInt (substring ?up 0 (nat (indexOf ?up ''K''))) 0
               = parseInt (takeWhile (\<lambda>c. c \<noteq> CHR ''K'') ?up) 10"
      if "CHR ''K'' \<in> set ?up"
      using parseInt_no_marker[OF nm(3,4)] substring_before_char[OF that] by simp
    have m: "parseInt (substring ?up 0 (nat (indexOf ?up ''M''))) 0
               = parseInt (takeWhile (\<lambda>c. c \<noteq> CHR ''M'') ?up) 10"
      if "CHR ''M'' \<in> set ?up"
      using parseInt_no_marker[OF nm(3,4)] substring_before_char[OF that] by simp
    show ?thesis
      unfolding fancyParseInt_def spec_fancyParseInt_def Let_def
      using False d k m by (simp add: indexOf_sublist sublist_single)
  qed
qed

lemma fancyParseInt_examples:
  "fancyParseInt ''0x9000'' = Some 36864"
  "fancyParseInt ''16K'' = Some 16384"
  "fancyParseInt ''4M'' = Some 4194304"
  "fancyParseInt '''' = Some 0"
  "fancyParseInt ''1000'' = Some 1000"
  by code_simp+

text \<open>The no-break space is white space: it is trimmed, and \<open>parseInt\<close> skips it.\<close>

lemma fancyParseInt_no_break_space:
  "fancyParseInt [CHR 0xA0] = Some 0"
  "fancyParseInt (CHR 0xA0 # ''12'') = Some 12"
  "fancyParseInt (CHR 0xA0 # ''16K'' @ [CHR 0xA0]) = Some 16384"
  by code_simp+

text \<open>
  C8. \<open>fancyParseInt\<close> trims and upper-cases its token and then: returns 0 for the empty
  token; parses the original string as hexadecimal when the token contains \<open>0X\<close>;
  otherwise multiplies the number before the first \<open>K\<close> by 1024, or the number before
  the first \<open>M\<close> by \<open>1024 * 1024\<close>; otherwise parses the string as decimal. In
  particular \<open>0x9000\<close> yields 36864, \<open>16K\<close> yields 16384, \<open>4M\<close> yields 4194304, the
  empty string yields 0 and \<open>1000\<close> yields 1000.
\<close>

theorem fancyParseInt_contract:
  "fancyParseInt str = spec_fancyParseInt str
   \<and> fancyParseInt ''0x9000'' = Some 36864
   \<and> fancyParseInt ''16K'' = Some 16384
   \<and> fancyParseInt ''4M'' = Some 4194304
   \<and> fancyParseInt '''' = Some 0
   \<and> fancyParseInt ''1000'' = Some 1000"
  using fancyParseInt_eq_spec fancyParseInt_examples by simp

text \<open>
  C10. A token that contains the hex marker \<open>0X\<close> and also a \<open>K\<close> or an \<open>M\<close> takes
  the hexadecimal branch: the result is \<open>parseInt (str, 16)\<close> on the original string,
  with no multiplier, and nothing is rejected (\<open>0x1K\<close> yields 1).
\<close>

theorem fancyParseInt_hex_wins:
  assumes "sublist ''0X'' (trim (toUpperCase str))"
    and "CHR ''K'' \<in> set (trim (toUpperCase str)) \<or> CHR ''M'' \<in> set (trim (toUpperCase str))"
  shows "fancyParseInt str = parseInt str 16"
proof -
  have "trim (toUpperCase str) \<noteq> []" using assms(1) by auto
  then show ?thesis using assms(1)
    by (simp add: fancyParseInt_def Let_def indexOf_sublist)
qed

theorem fancyParseInt_hex_wins_witness:
  "sublist ''0X'' (trim (toUpperCase ''0x1K''))
   \<and> CHR ''K'' \<in> set (trim (toUpperCase ''0x1K''))
   \<and> fancyParseInt ''0x1K'' = parseInt ''0x1K'' 16
   \<and> fancyParseInt ''0x1K'' = Some 1"
proof -
  have a: "sublist ''0X'' (trim (toUpperCase ''0x1K''))" by code_simp
  have b: "CHR ''K'' \<in> set (trim (toUpperCase ''0x1K''))" by code_simp
  have c: "parseInt ''0x1K'' 16 = Some 1" by code_simp
  show ?thesis using fancyParseInt_hex_wins[OF a disjI1[OF b]] a b c by simp
qed

section \<open>Partition table parser: the scan against the specification\<close>

lemma scanLine_row:
  "scanLine st line =
     (if 5 \<le> length (split_str (stripComment line) CHR '','')
      then row_step st (split_str (stripComment line) CHR '','') else st)"
  by (cases st) (auto simp add: scanLine_def row_step_def Let_def is_fat_row_def)

lemma scanLines_rows:
  "scanLines st lines =
     scan_rows st (filter (\<lambda>row. 5 \<le> length row)
                    (map (\<lambda>line. split_str (stripComment line) CHR '','') lines))"
  by (induction lines arbitrary: st) (simp_all add: scanLine_row)

lemma lastend_row_step:
  "lastend (row_step st row) =
     num_add (if fancyParseInt (row ! 3) = Some 0 then lastend st else fancyParseInt (row ! 3))
       (fancyParseInt (row ! 4))"
  by (simp add: row_step_def Let_def)

lemma scan_rows_result:
  "fsStart (scan_rows st rows) =
     (case filter fst (resolve_rows (lastend st) rows) of
        [] \<Rightarrow> fsStart st
      | f # fs \<Rightarrow> fst (snd (last (f # fs))))
   \<and> fsEnd (scan_rows st rows) =
     (case filter fst (resolve_rows (lastend st) rows) of
        [] \<Rightarrow> fsEnd st
      | f # fs \<Rightarrow> num_add (fst (snd (last (f # fs)))) (snd (snd (last (f # fs)))))"
proof (induction rows arbitrary: st)
  case Nil
  then show ?case by simp
next
  case (Cons row rows)
  let ?off = "if fancyParseInt (row ! 3) = Some 0 then lastend st else fancyParseInt (row ! 3)"
  let ?cur = "num_add ?off (fancyParseInt (row ! 4))"
  let ?tail = "filter fst (resolve_rows ?cur rows)"
  have le: "lastend (row_step st row) = ?cur" by (rule lastend_row_step)
  note ih = Cons.IH[of "row_step st row", unfolded le]
  show ?case
  proof (cases ?tail)
    case Nil
    then show ?thesis using ih
      by (simp add: Let_def row_step_def)
  next
    case (Cons f fs)
    then show ?thesis using ih
      by (simp add: Let_def)
  qed
qed

lemma fst_resolve_rows: "map fst (resolve_rows cursor rows) = map is_fat_row rows"
  by (induction rows arbitrary: cursor) (simp_all add: Let_def)

lemma has_fat_row_resolved:
  "has_fat_row text = (filter fst (resolve_rows cursor (table_rows text)) \<noteq> [])"
proof -
  have "(filter fst (resolve_rows cursor (table_rows text)) \<noteq> [])
          = (\<exists>b \<in> set (map fst (resolve_rows cursor (table_rows text))). b)"
    by (auto simp: filter_empty_conv)
  also have "\<dots> = (\<exists>row \<in> set (table_rows text). is_fat_row row)"
    unfolding fst_resolve_rows by auto
  finally show ?thesis by (simp add: has_fat_row_def list_ex_iff)
qed

lemma doOperation_partitions_rows:
  "doOperation_partitions text =
     (let st = scan_rows \<lparr> lastend = Some (0x8000 + 0xc00), fsStart = Some 0, fsEnd = Some 0 \<rparr>
                 (table_rows text)
      in if falsy (fsStart st) \<or> falsy (fsEnd st) then Inl NotFound
         else (case fsStart st of
                 None \<Rightarrow> Inl NotFound
               | Some a \<Rightarrow> (case fsEnd st of None \<Rightarrow> Inl NotFound | Some b \<Rightarrow> Inr (a, b))))"
  unfolding doOperation_partitions_def scanLines_rows table_rows_def ..

text \<open>
  C9. For every partition-table text in which no row with at least five
  comma-separated fields has the subtype \<open>FAT\<close> (trimmed, in any case), the scan ends
  with the not-found failure: no default range is returned.
\<close>

theorem partitions_not_found:
  assumes "\<not> has_fat_row text"
  shows "doOperation_partitions text = Inl NotFound"
proof -
  let ?st0 = "\<lparr> lastend = Some (0x8000 + 0xc00), fsStart = Some 0, fsEnd = Some 0 \<rparr>"
  have e: "filter fst (resolve_rows (lastend ?st0) (table_rows text)) = []"
    using assms has_fat_row_resolved[of "text" "lastend ?st0"] by simp
  have "fsStart (scan_rows ?st0 (table_rows text)) = Some 0"
    using scan_rows_result[of ?st0 "table_rows text"] unfolding e by simp
  then show ?thesis
    unfolding doOperation_partitions_rows by (simp add: falsy_def Let_def)
qed

theorem partitions_not_found_witness:
  "\<not> has_fat_row (''nvs,data,nvs,0x9000,0x5000'' @ [CHR 0x0A] @ ''spiffs,data,spiffs,,1M'')
   \<and> doOperation_partitions
        (''nvs,data,nvs,0x9000,0x5000'' @ [CHR 0x0A] @ ''spiffs,data,spiffs,,1M'')
       = Inl NotFound"
proof -
  have a: "\<not> has_fat_row
              (''nvs,data,nvs,0x9000,0x5000'' @ [CHR 0x0A] @ ''spiffs,data,spiffs,,1M'')"
    by code_simp
  show ?thesis using a partitions_not_found[OF a] by simp
qed

lemma scan_rows_fat:
  assumes "filter fst (resolve_rows (lastend st) rows) \<noteq> []"
    and "last (filter fst (resolve_rows (lastend st) rows)) = (b, off, sz)"
  shows "fsStart (scan_rows st rows) = off" and "fsEnd (scan_rows st rows) = num_add off sz"
proof -
  obtain f fs where c: "filter fst (resolve_rows (lastend st) rows) = f # fs"
    using assms(1) by (cases "filter fst (resolve_rows (lastend st) rows)") auto
  have l: "last (f # fs) = (b, off, sz)" using assms(2) unfolding c .
  show "fsStart (scan_rows st rows) = off" and "fsEnd (scan_rows st rows) = num_add off sz"
    using scan_rows_result[of st rows] unfolding c list.case l by simp_all
qed

text \<open>A subtype padded with no-break spaces is a FAT subtype, as it is after \<open>trim ()\<close>.\<close>

lemma no_break_space_fat_row:
  "has_fat_row (''a,data,fat,0x10000,0x100000'' @ [CHR 0x0A]
                @ ''b,data,'' @ [CHR 0xA0] @ ''fat'' @ [CHR 0xA0] @ '',0x200000,0x100000'')"
  "doOperation_partitions
     (''a,data,fat,0x10000,0x100000'' @ [CHR 0x0A]
      @ ''b,data,'' @ [CHR 0xA0] @ ''fat'' @ [CHR 0xA0] @ '',0x200000,0x100000'')
   = Inr (2097152, 3145728)"
  "doOperation_partitions (''b,data,'' @ [CHR 0xA0] @ ''fat,0x10000,0x100000'')
   = Inr (65536, 1114112)"
  by code_simp+

text \<open>
  C6, as amended. For every partition-table text with at least one FAT row (at least
  five comma-separated fields, subtype \<open>FAT\<close> after trimming, in any case), the scan
  resolves the range \<open>(start, end)\<close> of the last such row in file order, with
  \<open>end = start + size\<close>, where the offset of each row is its parsed field 3 unless
  that is exactly 0, in which case it is the running cursor, seeded at
  \<open>0x8000 + 0xC00\<close> and advanced to \<open>offset + size\<close> after every row with at least five
  fields. The scan returns that range when \<open>start\<close> and \<open>end\<close> are both numbers other
  than 0, and fails as not found when either is \<open>NaN\<close> or 0.
\<close>

theorem partitions_last_fat_row:
  assumes "has_fat_row text"
  shows "doOperation_partitions text =
           (case last_fat_range text of
              (Some start, Some end) \<Rightarrow>
                 if start = 0 \<or> end = 0 then Inl NotFound else Inr (start, end)
            | _ \<Rightarrow> Inl NotFound)"
proof -
  define st0 where "st0 = \<lparr> lastend = Some (0x8000 + 0xc00), fsStart = Some 0, fsEnd = Some 0 \<rparr>"
  have le: "lastend st0 = Some (0x8000 + 0xC00)" by (simp add: st0_def)
  let ?fats = "filter fst (resolve_rows (lastend st0) (table_rows text))"
  have ne: "?fats \<noteq> []"
    using assms has_fat_row_resolved[of "text" "lastend st0"] by simp
  obtain b off sz where l: "last ?fats = (b, off, sz)" by (cases "last ?fats") auto
  note r = scan_rows_fat[OF ne l]
  have lf: "last_fat_range text = (off, num_add off sz)"
    using l unfolding le by (simp add: last_fat_range_def)
  have d: "doOperation_partitions text =
     (let st = scan_rows st0 (table_rows text)
      in if falsy (fsStart st) \<or> falsy (fsEnd st) then Inl NotFound
         else (case fsStart st of
                 None \<Rightarrow> Inl NotFound
               | Some a \<Rightarrow> (case fsEnd st of None \<Rightarrow> Inl NotFound | Some b \<Rightarrow> Inr (a, b))))"
    unfolding doOperation_partitions_rows st0_def ..
  show ?thesis
    unfolding d lf Let_def r
    by (auto simp: falsy_def split: option.splits)
qed

theorem partitions_last_fat_row_witness:
  "has_fat_row (''nvs,data,nvs,0x9000,0x5000'' @ [CHR 0x0A] @ ''a,data,fat,,16K''
                @ [CHR 0x0A] @ ''b,data, FAT ,0x20000,1M # second'' @ [CHR 0x0A]
                @ ''core,data,coredump,,64K'')
   \<and> doOperation_partitions
        (''nvs,data,nvs,0x9000,0x5000'' @ [CHR 0x0A] @ ''a,data,fat,,16K''
         @ [CHR 0x0A] @ ''b,data, FAT ,0x20000,1M # second'' @ [CHR 0x0A]
         @ ''core,data,coredump,,64K'')
       = Inr (131072, 1179648)"
proof -
  let ?t = "''nvs,data,nvs,0x9000,0x5000'' @ [CHR 0x0A] @ ''a,data,fat,,16K''
                @ [CHR 0x0A] @ ''b,data, FAT ,0x20000,1M # second'' @ [CHR 0x0A]
                @ ''core,data,coredump,,64K''"
  have a: "has_fat_row ?t" by code_simp
  have b: "last_fat_range ?t = (Some 131072, Some 1179648)" by code_simp
  show ?thesis using a partitions_last_fat_row[OF a] unfolding b by simp
qed

text \<open>
  C6 as first stated, without the condition on \<open>start\<close> and \<open>end\<close>, fails: the text below
  has a FAT row whose size does not parse, \<open>end\<close> is \<open>NaN\<close>, and the scan reports that
  no FAT partition was found.
\<close>

theorem partitions_fat_row_counterexample:
  "has_fat_row ''ffat,data,fat,0x10000,x''
   \<and> doOperation_partitions ''ffat,data,fat,0x10000,x'' = Inl NotFound"
  by code_simp

end
